theory Spec2Isabelle
  imports Main
begin

section \<open>Media-API guard (kernixcordplugins/VoiceCrashPreventer/index.ts)\<close>

text \<open>
  The plugin replaces three browser entry points by wrappers of the shape
  \<^verbatim>\<open>try { return original.call(this, arg) } catch (error) { ... }\<close>.
  A call of a JavaScript function either returns a value or throws one; the outcome of a
  call is a sum, \<open>Inl\<close> the thrown value. The originals are browser code that is not part
  of the repository: they are parameters of the model, functions of the receiver
  (\<^verbatim>\<open>this\<close>), the argument and the browser's state \<open>'w\<close>, which they may change.
  Every call of an original is recorded in \<open>calls\<close>, so that the number of calls and their
  arguments can be stated.
\<close>

datatype js_error = JsError (err_name: string) (err_message: string)

text \<open>The value a media call returns is a promise; only its state matters here.\<close>

datatype 'v promise = Resolved 'v | Rejected js_error | Pending

text \<open>
  \<^verbatim>\<open>MediaStreamConstraints\<close>: the members \<^verbatim>\<open>audio\<close> and \<^verbatim>\<open>video\<close> are optional and hold
  a boolean or a \<^verbatim>\<open>MediaTrackConstraints\<close> object. An absent member reads \<^verbatim>\<open>undefined\<close>.
\<close>

datatype track_request = Flag bool | TrackConstraints string

record constraints =
  audio :: "track_request option"
  video :: "track_request option"

text \<open>JavaScript truthiness of a member: \<^verbatim>\<open>undefined\<close> and \<^verbatim>\<open>false\<close> are falsy, objects are truthy.\<close>

fun truthy_member :: "track_request option \<Rightarrow> bool" where
  "truthy_member None = False"
| "truthy_member (Some (Flag b)) = b"
| "truthy_member (Some (TrackConstraints c)) = True"

text \<open>\<^verbatim>\<open>constraints?.video\<close> on an optional argument.\<close>

definition video_requested :: "constraints option \<Rightarrow> bool" where
  "video_requested cs = (case cs of None \<Rightarrow> False | Some c \<Rightarrow> truthy_member (video c))"

datatype media_stream = MediaStream (tracks: "string list")

record plugin_settings =
  preventCrash :: bool
  logEvents :: bool

datatype log_arg = ArgError js_error | ArgElement nat | ArgConstraints "constraints option"

datatype console_entry = ConsoleWarn string log_arg | ConsoleLog string log_arg

datatype native_call =
    CallSetSinkId nat string
  | CallGetDisplayMedia nat "constraints option"
  | CallGetUserMedia nat "constraints option"

record 'w page =
  settings :: plugin_settings
  world :: 'w
  calls :: "native_call list"
  console :: "console_entry list"

type_synonym ('a, 'r, 'w) native = "nat \<Rightarrow> 'a \<Rightarrow> 'w \<Rightarrow> (js_error + 'r) \<times> 'w"

type_synonym ('r, 'w) outcome = "(js_error + 'r) \<times> 'w page"

text \<open>\<^verbatim>\<open>original.call(this, arg)\<close>: run the original on the browser state and record the call.\<close>

definition invoke :: "('a, 'r, 'w) native \<Rightarrow> (nat \<Rightarrow> 'a \<Rightarrow> native_call) \<Rightarrow> nat \<Rightarrow> 'a \<Rightarrow> 'w page
    \<Rightarrow> ('r, 'w) outcome" where
  "invoke original tag this arg pg =
     (case original this arg (world pg) of
        (res, w') \<Rightarrow> (res, pg\<lparr>world := w', calls := calls pg @ [tag this arg]\<rparr>))"

definition console_warn :: "string \<Rightarrow> log_arg \<Rightarrow> 'w page \<Rightarrow> 'w page" where
  "console_warn msg a pg = pg\<lparr>console := console pg @ [ConsoleWarn msg a]\<rparr>"

definition console_log :: "string \<Rightarrow> log_arg \<Rightarrow> 'w page \<Rightarrow> 'w page" where
  "console_log msg a pg = pg\<lparr>console := console pg @ [ConsoleLog msg a]\<rparr>"

text \<open>The replacement of \<^verbatim>\<open>HTMLMediaElement.prototype.setSinkId\<close> (index.ts, lines 41-54).\<close>

definition setSinkId_wrapper :: "(string, unit promise, 'w) native \<Rightarrow> nat \<Rightarrow> string \<Rightarrow> 'w page
    \<Rightarrow> (unit promise, 'w) outcome" where
  "setSinkId_wrapper originalSetSinkId this sinkId pg =
     (case invoke originalSetSinkId CallSetSinkId this sinkId pg of
        (Inr p, pg1) \<Rightarrow> (Inr p, pg1)
      | (Inl error, pg1) \<Rightarrow>
          if preventCrash (settings pg1) then
            (let pg2 = console_warn ''[VoiceCrashPreventer] setSinkId error prevented:'' (ArgError error) pg1;
                 pg3 = (if logEvents (settings pg2) then console_log ''Element:'' (ArgElement this) pg2 else pg2)
             in (Inr (Resolved ()), pg3))
          else (Inl error, pg1))"

text \<open>
  \<^verbatim>\<open>patchVoiceModule\<close> installs the wrapper only where the prototype has a \<^verbatim>\<open>setSinkId\<close>;
  the slot of the prototype is \<open>None\<close> where it has none.
\<close>

definition patchVoiceModule :: "(string, unit promise, 'w) native option
    \<Rightarrow> (nat \<Rightarrow> string \<Rightarrow> 'w page \<Rightarrow> (unit promise, 'w) outcome) option" where
  "patchVoiceModule slot =
     (case slot of None \<Rightarrow> None
      | Some originalSetSinkId \<Rightarrow> Some (setSinkId_wrapper originalSetSinkId))"

text \<open>The replacement of \<^verbatim>\<open>navigator.mediaDevices.getDisplayMedia\<close> (lines 60-70).\<close>

definition getDisplayMedia_wrapper :: "(constraints option, media_stream promise, 'w) native
    \<Rightarrow> nat \<Rightarrow> constraints option \<Rightarrow> 'w page \<Rightarrow> (media_stream promise, 'w) outcome" where
  "getDisplayMedia_wrapper originalGetDisplayMedia this cs pg =
     (case invoke originalGetDisplayMedia CallGetDisplayMedia this cs pg of
        (Inr p, pg1) \<Rightarrow> (Inr p, pg1)
      | (Inl error, pg1) \<Rightarrow>
          if preventCrash (settings pg1) then
            (let pg2 = console_warn ''[VoiceCrashPreventer] getDisplayMedia error prevented:'' (ArgError error) pg1
             in (Inr (Resolved (MediaStream [])), pg2))
          else (Inl error, pg1))"

text \<open>
  The replacement of \<^verbatim>\<open>navigator.mediaDevices.getUserMedia\<close> (lines 73-86). The second
  call of the original stands in the \<^verbatim>\<open>catch\<close> block: what it throws leaves the wrapper.
  \<^verbatim>\<open>{ audio: constraints.audio }\<close> has no \<^verbatim>\<open>video\<close> member.
\<close>

definition audio_only :: "constraints \<Rightarrow> constraints" where
  "audio_only c = \<lparr>audio = audio c, video = None\<rparr>"

definition getUserMedia_wrapper :: "(constraints option, media_stream promise, 'w) native
    \<Rightarrow> nat \<Rightarrow> constraints option \<Rightarrow> 'w page \<Rightarrow> (media_stream promise, 'w) outcome" where
  "getUserMedia_wrapper originalGetUserMedia this cs pg =
     (case invoke originalGetUserMedia CallGetUserMedia this cs pg of
        (Inr p, pg1) \<Rightarrow> (Inr p, pg1)
      | (Inl error, pg1) \<Rightarrow>
          if preventCrash (settings pg1) \<and> video_requested cs then
            (let pg2 = console_warn ''[VoiceCrashPreventer] getUserMedia video error prevented:'' (ArgError error) pg1;
                 pg3 = (if logEvents (settings pg2) then console_log ''Constraints:'' (ArgConstraints cs) pg2 else pg2)
             in case cs of
                  Some c \<Rightarrow> invoke originalGetUserMedia CallGetUserMedia this (Some (audio_only c)) pg3
                | None \<Rightarrow> (Inl (JsError ''TypeError'' ''constraints is undefined''), pg3))
          else (Inl error, pg1))"

section \<open>Component-availability waiter (menu-fix.ts)\<close>

text \<open>
  The value the registry hands to a \<^verbatim>\<open>waitFor\<close> callback; \<^verbatim>\<open>if (component)\<close> tests its
  truthiness.
\<close>

datatype component = Falsy | Module string

fun truthy :: "component \<Rightarrow> bool" where
  "truthy Falsy = False"
| "truthy (Module m) = True"

text \<open>
  Modelled from the spec: \<^verbatim>\<open>waitFor(query, callback)\<close> of the host's module registry, which
  is imported by menu-fix.ts and not part of it. The spec: "asynchronous, calls back at most
  once when a match is found; no cancellation handle exposed". One registration therefore
  has one of two fates: the callback is never called, or it is called once, some
  milliseconds after the registration, with a component. What the registry answers is a
  parameter of the model: \<open>selector_reply reg attempt index selector\<close> is the fate of the
  registration made for entry \<open>index\<close> of \<^verbatim>\<open>menuSelectors\<close> in the given attempt, and
  \<open>critical_reply reg attempt\<close> that of the verification made at the end of the attempt.
\<close>

datatype reply = NoCallback | Callback nat component

datatype selector = ByName string | ByCode "string list"

record registry =
  selector_reply :: "nat \<Rightarrow> nat \<Rightarrow> selector \<Rightarrow> reply"
  critical_reply :: "nat \<Rightarrow> reply"

definition menuSelectors :: "selector list" where
  "menuSelectors =
     [ByName ''MenuCheckboxItem'',
      ByName ''MenuRadioItem'',
      ByName ''MenuItem'',
      ByName ''MenuGroup'',
      ByCode [''path:[\"empty\"]''],
      ByCode [''sliderContainer'', ''slider'', ''handleSize:16'', ''=100''],
      ByCode [''.SEARCH)'', ''.focus()'', ''query:'']]"

definition MAX_RETRIES :: nat where
  "MAX_RETRIES = 5"

text \<open>The delay of the timer each listed query races against (line 37), in milliseconds.\<close>

definition QUERY_TIMEOUT :: nat where
  "QUERY_TIMEOUT = 2000"

text \<open>The delay of the timer that starts the next attempt (line 57).\<close>

definition RETRY_DELAY :: nat where
  "RETRY_DELAY = 1000"

datatype menu_log =
    AttemptInfo nat
  | SelectorTimedOut nat
  | ComponentLoaded nat
  | CriticalVerified
  | VerificationRetry nat
  | LoadFailed

text \<open>
  One promise of \<^verbatim>\<open>loadPromises\<close> (lines 33-46). Its executor takes \<^verbatim>\<open>menuResolve\<close>
  only. Two callbacks can settle it: the timer's and the registry's. \<open>settled_at\<close> is the
  time of the settlement, counted from the creation of the promise; the lines a race logs
  are kept with the race, since a late registry callback writes its line at a time that
  has nothing to do with the attempts.
\<close>

record race =
  state :: "unit promise"
  settled_at :: nat
  timer_cleared :: bool
  race_log :: "menu_log list"

definition new_race :: race where
  "new_race = \<lparr>state = Pending, settled_at = 0, timer_cleared = False, race_log = []\<rparr>"

text \<open>Resolving a settled promise does nothing.\<close>

definition menuResolve :: "nat \<Rightarrow> race \<Rightarrow> race" where
  "menuResolve t r =
     (case state r of Pending \<Rightarrow> r\<lparr>state := Resolved (), settled_at := t\<rparr> | _ \<Rightarrow> r)"

text \<open>The timer's callback (lines 34-37); a cleared timer does not fire.\<close>

definition timer_fired :: "nat \<Rightarrow> race \<Rightarrow> race" where
  "timer_fired index r =
     (if timer_cleared r then r
      else menuResolve QUERY_TIMEOUT (r\<lparr>race_log := race_log r @ [SelectorTimedOut index]\<rparr>))"

text \<open>The registry's callback (lines 39-45), called \<open>t\<close> ms after the registration.\<close>

definition matched :: "nat \<Rightarrow> nat \<Rightarrow> component \<Rightarrow> race \<Rightarrow> race" where
  "matched index t c r =
     (let r1 = r\<lparr>timer_cleared := True\<rparr>;
          r2 = (if truthy c then r1\<lparr>race_log := race_log r1 @ [ComponentLoaded index]\<rparr> else r1)
      in menuResolve t r2)"

text \<open>
  The two callbacks run in the order of their times. The timer is set before the
  registration is made, so at equal times the timer's callback is taken to run first.
\<close>

definition loadPromise :: "nat \<Rightarrow> reply \<Rightarrow> race" where
  "loadPromise index rep =
     (case rep of
        NoCallback \<Rightarrow> timer_fired index new_race
      | Callback t c \<Rightarrow>
          if t < QUERY_TIMEOUT then timer_fired index (matched index t c new_race)
          else matched index t c (timer_fired index new_race))"

text \<open>\<^verbatim>\<open>Promise.all\<close>: fulfilled when every member is, rejected when a member is.\<close>

fun promise_all :: "unit promise list \<Rightarrow> unit promise" where
  "promise_all [] = Resolved ()"
| "promise_all (Resolved u # ps) = promise_all ps"
| "promise_all (Rejected e # ps) = Rejected e"
| "promise_all (Pending # ps) = (case promise_all ps of Rejected e \<Rightarrow> Rejected e | _ \<Rightarrow> Pending)"

text \<open>
  What a call of \<^verbatim>\<open>ensureMenuComponents\<close> has done: the state of the promise it returned,
  the number of calls of \<^verbatim>\<open>attemptLoad\<close>, the delays of the retry timers it has set, the
  time since the call, and the lines logged by \<^verbatim>\<open>attemptLoad\<close> and the verification.
\<close>

record run =
  result :: "unit promise"
  attempts :: nat
  retry_delays :: "nat list"
  clock :: nat
  races :: "race list list"
  log :: "menu_log list"

definition new_run :: run where
  "new_run = \<lparr>result = Pending, attempts = 0, retry_delays = [], clock = 0, races = [], log = []\<rparr>"

text \<open>\<^verbatim>\<open>resolve()\<close> and \<^verbatim>\<open>reject(e)\<close> of the returned promise.\<close>

definition settle :: "unit promise \<Rightarrow> run \<Rightarrow> run" where
  "settle p st = (case result st of Pending \<Rightarrow> st\<lparr>result := p\<rparr> | _ \<Rightarrow> st)"

definition logger :: "menu_log \<Rightarrow> run \<Rightarrow> run" where
  "logger l st = st\<lparr>log := log st @ [l]\<rparr>"

text \<open>
  \<^verbatim>\<open>attemptLoad\<close> (lines 29-64). The \<^verbatim>\<open>then\<close> callback runs once the joined promise is
  fulfilled, that is when the last race has settled; the verification's callback runs when
  the registry calls it, and not at all otherwise. A retry is a timer of \<open>RETRY_DELAY\<close>
  whose callback is the next call of \<^verbatim>\<open>attemptLoad\<close>.
\<close>

function attemptLoad :: "registry \<Rightarrow> nat \<Rightarrow> run \<Rightarrow> run" where
  "attemptLoad reg attempt st =
     (let st1 = logger (AttemptInfo attempt) (st\<lparr>attempts := attempts st + 1\<rparr>);
          loadPromises = map (\<lambda>(index, sel). loadPromise index (selector_reply reg attempt index sel))
                             (enumerate 0 menuSelectors);
          st2 = st1\<lparr>races := races st1 @ [loadPromises]\<rparr>
      in case promise_all (map state loadPromises) of
           Resolved u \<Rightarrow>
             (let st3 = st2\<lparr>clock := clock st2 + fold max (map settled_at loadPromises) 0\<rparr>
              in case critical_reply reg attempt of
                   NoCallback \<Rightarrow> st3
                 | Callback t c \<Rightarrow>
                     (let st4 = st3\<lparr>clock := clock st3 + t\<rparr>
                      in if truthy c then settle (Resolved ()) (logger CriticalVerified st4)
                         else if attempt < MAX_RETRIES then
                           attemptLoad reg (attempt + 1)
                             ((logger (VerificationRetry (attempt + 1)) st4)
                                \<lparr>retry_delays := retry_delays st4 @ [RETRY_DELAY],
                                 clock := clock st4 + RETRY_DELAY\<rparr>)
                         else settle (Rejected (JsError ''Error'' ''Menu components failed to load''))
                                (logger LoadFailed st4)))
         | _ \<Rightarrow> st2)"
  by pat_completeness auto
termination
  by (relation "measure (\<lambda>(reg, attempt, st). MAX_RETRIES - attempt)") auto

definition ensureMenuComponents :: "registry \<Rightarrow> run" where
  "ensureMenuComponents reg = attemptLoad reg 1 new_run"

section \<open>Startup optimizer (performance-patches.ts)\<close>

subsection \<open>The patched timer function\<close>

text \<open>
  A callback is a function value: \<^verbatim>\<open>callback.toString()\<close> gives its source text, and
  \<open>body\<close> says what running it does. The \<^verbatim>\<open>delay\<close> parameter is declared \<^verbatim>\<open>number\<close>;
  timer delays are whole milliseconds, an \<open>int\<close> here.
\<close>

record 'k callback =
  source :: string
  body :: 'k

text \<open>\<^verbatim>\<open>String.prototype.includes\<close>: the pattern occurs somewhere in the text.\<close>

fun starts_with :: "string \<Rightarrow> string \<Rightarrow> bool" where
  "starts_with s [] = True"
| "starts_with [] (p # ps) = False"
| "starts_with (c # cs) (p # ps) = (c = p \<and> starts_with cs ps)"

fun js_includes :: "string \<Rightarrow> string \<Rightarrow> bool" where
  "js_includes [] pat = (pat = [])"
| "js_includes (c # cs) pat = (starts_with (c # cs) pat \<or> js_includes cs pat)"

text \<open>
  The function \<^verbatim>\<open>optimizeWebpackLoading\<close> stores in \<^verbatim>\<open>global.setTimeout\<close> (lines 20-26),
  closed over the function it replaces.
\<close>

definition setTimeout_patched :: "('k callback \<Rightarrow> int \<Rightarrow> 'a list \<Rightarrow> 'r)
    \<Rightarrow> 'k callback \<Rightarrow> int \<Rightarrow> 'a list \<Rightarrow> 'r" where
  "setTimeout_patched originalSetTimeout cb delay args =
     (if delay = 0 \<and> js_includes (source cb) ''Reflect.deleteProperty''
      then originalSetTimeout cb 1 args
      else originalSetTimeout cb delay args)"

subsection \<open>Timers\<close>

text \<open>
  The host's timer facility, as far as the module uses it: \<^verbatim>\<open>setTimeout\<close> queues the
  callback to run once \<open>delay\<close> milliseconds have passed (a negative delay counts as 0).
\<close>

record ('k, 'a) timer =
  due :: nat
  handler :: "'k callback"
  handler_args :: "'a list"

record ('k, 'a) scheduler =
  now :: nat
  timers :: "('k, 'a) timer list"

definition native_setTimeout :: "'k callback \<Rightarrow> int \<Rightarrow> 'a list \<Rightarrow> ('k, 'a) scheduler
    \<Rightarrow> ('k, 'a) scheduler" where
  "native_setTimeout cb delay args sch =
     sch\<lparr>timers := timers sch @ [\<lparr>due = now sch + nat delay, handler = cb, handler_args = args\<rparr>]\<rparr>"

subsection \<open>The settings toggle\<close>

text \<open>
  \<^verbatim>\<open>Settings\<close> is an object whose member \<^verbatim>\<open>cloud\<close> refers to another object (or is
  \<^verbatim>\<open>undefined\<close>). \<^verbatim>\<open>{ ...Settings }\<close> copies the members of the outer object, that is the
  reference: the copy's \<^verbatim>\<open>cloud\<close> is the same object as the live one. Objects live in a
  store, addressed by \<open>nat\<close>.
\<close>

record cloud_settings =
  settingsSync :: bool

record settings_object =
  cloud :: "nat option"

datatype task = RestoreCloudSync

datatype perf_log = DisablingCloudSync | ReenabledCloudSync | UncaughtTypeError

record app =
  Settings :: settings_object
  store :: "nat \<Rightarrow> cloud_settings option"
  global_setTimeout :: "task callback \<Rightarrow> int \<Rightarrow> unit list \<Rightarrow> (task, unit) scheduler \<Rightarrow> (task, unit) scheduler"
  sched :: "(task, unit) scheduler"
  plog :: "perf_log list"

text \<open>\<^verbatim>\<open>optimizeWebpackLoading\<close> (lines 17-27).\<close>

definition optimizeWebpackLoading :: "app \<Rightarrow> app" where
  "optimizeWebpackLoading ap =
     (let originalSetTimeout = global_setTimeout ap
      in ap\<lparr>global_setTimeout := setTimeout_patched originalSetTimeout\<rparr>)"

text \<open>The arrow function of lines 68-71.\<close>

definition restore_callback :: "task callback" where
  "restore_callback =
     \<lparr>source = ''() => { Settings.cloud.settingsSync = true; logger.info(\"Re-enabled cloud sync after startup\"); }'',
      body = RestoreCloudSync\<rparr>"

text \<open>Reading \<^verbatim>\<open>o.cloud?.settingsSync\<close>; \<open>None\<close> is \<^verbatim>\<open>undefined\<close>.\<close>

definition read_settingsSync :: "settings_object \<Rightarrow> (nat \<Rightarrow> cloud_settings option) \<Rightarrow> bool option" where
  "read_settingsSync obj st =
     (case cloud obj of None \<Rightarrow> None
      | Some a \<Rightarrow> (case st a of None \<Rightarrow> None | Some c \<Rightarrow> Some (settingsSync c)))"

text \<open>
  Writing \<^verbatim>\<open>o.cloud.settingsSync = b\<close>: the object \<open>o.cloud\<close> refers to is updated in the
  store; with \<^verbatim>\<open>o.cloud\<close> undefined the assignment throws a TypeError (\<open>None\<close>).
\<close>

definition write_settingsSync :: "settings_object \<Rightarrow> bool \<Rightarrow> (nat \<Rightarrow> cloud_settings option)
    \<Rightarrow> (nat \<Rightarrow> cloud_settings option) option" where
  "write_settingsSync obj b st =
     (case cloud obj of None \<Rightarrow> None
      | Some a \<Rightarrow> (case st a of None \<Rightarrow> None | Some c \<Rightarrow> Some (st(a \<mapsto> c\<lparr>settingsSync := b\<rparr>))))"

text \<open>\<^verbatim>\<open>disableHeavyFeaturesTemporarily\<close> (lines 58-73).\<close>

definition disableHeavyFeaturesTemporarily :: "app \<Rightarrow> app" where
  "disableHeavyFeaturesTemporarily ap =
     (let originalSettings = Settings ap
      in if read_settingsSync originalSettings (store ap) = Some True then
           (case write_settingsSync originalSettings False (store ap) of
              None \<Rightarrow> ap
            | Some st' \<Rightarrow>
                (let ap1 = ap\<lparr>plog := plog ap @ [DisablingCloudSync], store := st'\<rparr>
                 in ap1\<lparr>sched := global_setTimeout ap1 restore_callback 5000 [] (sched ap1)\<rparr>))
         else ap)"

text \<open>Running a timer's callback. The restore callback reads the live \<^verbatim>\<open>Settings\<close>.\<close>

fun run_task :: "task \<Rightarrow> app \<Rightarrow> app" where
  "run_task RestoreCloudSync ap =
     (case write_settingsSync (Settings ap) True (store ap) of
        None \<Rightarrow> ap\<lparr>plog := plog ap @ [UncaughtTypeError]\<rparr>
      | Some st' \<Rightarrow> ap\<lparr>store := st', plog := plog ap @ [ReenabledCloudSync]\<rparr>)"

text \<open>
  Time passes: the clock moves on by \<open>d\<close> milliseconds and the timers that have become
  due run, earliest first, timers due at the same time in the order they were set.
\<close>

definition elapse :: "nat \<Rightarrow> app \<Rightarrow> app" where
  "elapse d ap =
     (let t = now (sched ap) + d;
          ready = sort_key due (filter (\<lambda>tm. due tm \<le> t) (timers (sched ap)));
          waiting = filter (\<lambda>tm. \<not> due tm \<le> t) (timers (sched ap))
      in fold (\<lambda>tm. run_task (body (handler tm))) ready (ap\<lparr>sched := \<lparr>now = t, timers = waiting\<rparr>\<rparr>))"

text \<open>
  What can happen between the call and the restore: the function is called again, some
  other code assigns the flag through the live \<^verbatim>\<open>Settings\<close>, time passes.
\<close>

datatype event = CallDisable | AssignSync bool | Elapse nat

fun step :: "event \<Rightarrow> app \<Rightarrow> app" where
  "step CallDisable ap = disableHeavyFeaturesTemporarily ap"
| "step (AssignSync b) ap =
     (case write_settingsSync (Settings ap) b (store ap) of None \<Rightarrow> ap | Some st' \<Rightarrow> ap\<lparr>store := st'\<rparr>)"
| "step (Elapse d) ap = elapse d ap"

fun elapsed :: "event list \<Rightarrow> nat" where
  "elapsed [] = 0"
| "elapsed (Elapse d # evs) = d + elapsed evs"
| "elapsed (ev # evs) = elapsed evs"

definition run_events :: "event list \<Rightarrow> app \<Rightarrow> app" where
  "run_events evs ap = fold step evs ap"

section \<open>Notions used in the statements\<close>

text \<open>
  The verification of attempt \<open>k\<close> is answered with a truthy component, or with a falsy
  one. An unanswered verification is neither.
\<close>

definition critical_truthy :: "registry \<Rightarrow> nat \<Rightarrow> bool" where
  "critical_truthy reg k = (case critical_reply reg k of NoCallback \<Rightarrow> False | Callback t c \<Rightarrow> truthy c)"

definition critical_falsy :: "registry \<Rightarrow> nat \<Rightarrow> bool" where
  "critical_falsy reg k = (case critical_reply reg k of NoCallback \<Rightarrow> False | Callback t c \<Rightarrow> \<not> truthy c)"

text \<open>
  The critical query is answered with a truthy component within the attempts \<open>a\<close> to \<open>m\<close>:
  some attempt \<open>k\<close> of them is, and the attempts before it were made and failed, that is each
  was answered with a falsy component.
\<close>

definition verified_within :: "registry \<Rightarrow> nat \<Rightarrow> nat \<Rightarrow> bool" where
  "verified_within reg a m =
     (\<exists>k \<in> {a..m}. critical_truthy reg k \<and> (\<forall>j \<in> {a..<k}. critical_falsy reg j))"

text \<open>
  The timer function the settings toggle finds in \<^verbatim>\<open>global.setTimeout\<close>: the host's, or
  the host's patched by \<^verbatim>\<open>optimizeWebpackLoading\<close>.
\<close>

definition host_timer :: "(task callback \<Rightarrow> int \<Rightarrow> unit list \<Rightarrow> (task, unit) scheduler \<Rightarrow> (task, unit) scheduler) \<Rightarrow> bool" where
  "host_timer f = (f = native_setTimeout \<or> f = setTimeout_patched native_setTimeout)"

text \<open>\<^verbatim>\<open>Settings.cloud.settingsSync\<close> as an observer reads it.\<close>

definition live_settingsSync :: "app \<Rightarrow> bool option" where
  "live_settingsSync ap = read_settingsSync (Settings ap) (store ap)"

text \<open>\<^verbatim>\<open>Settings.cloud\<close> refers to an object of the store, at address \<open>a\<close>.\<close>

definition well_formed :: "nat \<Rightarrow> app \<Rightarrow> bool" where
  "well_formed a ap \<longleftrightarrow>
     cloud (Settings ap) = Some a \<and> store ap a \<noteq> None \<and> host_timer (global_setTimeout ap)"

text \<open>The time an event takes.\<close>

fun duration :: "event \<Rightarrow> nat" where
  "duration (Elapse d) = d"
| "duration ev = 0"

section \<open>Example inputs\<close>

text \<open>An original that always throws, and counts its calls in the browser state.\<close>

definition thrower :: "('a, 'r, nat) native" where
  "thrower this arg w = (Inl (JsError ''NotReadableError'' ''device in use''), Suc w)"

text \<open>A \<^verbatim>\<open>getUserMedia\<close> that throws when video is requested and delivers audio otherwise.\<close>

definition video_fails :: "(constraints option, media_stream promise, nat) native" where
  "video_fails this cs w =
     (if video_requested cs then (Inl (JsError ''NotReadableError'' ''camera in use''), Suc w)
      else (Inr (Resolved (MediaStream [''mic''])), Suc w))"

text \<open>A \<^verbatim>\<open>getDisplayMedia\<close> that succeeds.\<close>

definition always_ok :: "(constraints option, media_stream promise, nat) native" where
  "always_ok this cs w = (Inr (Resolved (MediaStream [''screen''])), Suc w)"

definition page0 :: "bool \<Rightarrow> nat page" where
  "page0 b = \<lparr>settings = \<lparr>preventCrash = b, logEvents = False\<rparr>, world = 0, calls = [], console = []\<rparr>"

definition av :: constraints where
  "av = \<lparr>audio = Some (Flag True), video = Some (Flag True)\<rparr>"

definition audio_request :: constraints where
  "audio_request = \<lparr>audio = Some (Flag True), video = None\<rparr>"

text \<open>A registry that never answers.\<close>

definition silent_registry :: registry where
  "silent_registry = \<lparr>selector_reply = (\<lambda>attempt index sel. NoCallback), critical_reply = (\<lambda>attempt. NoCallback)\<rparr>"

text \<open>
  The critical component is missing in the first two attempts and there in the third;
  the listed queries are never answered (every race ends by its timer), or at once.
\<close>

definition third_time :: "nat \<Rightarrow> reply" where
  "third_time attempt =
     (if attempt = 3 then Callback 10 (Module ''MenuCheckboxItem'') else Callback 10 Falsy)"

definition slow_registry :: registry where
  "slow_registry = \<lparr>selector_reply = (\<lambda>attempt index sel. NoCallback), critical_reply = third_time\<rparr>"

definition prompt_registry :: registry where
  "prompt_registry =
     \<lparr>selector_reply = (\<lambda>attempt index sel. Callback 0 (Module ''m'')), critical_reply = third_time\<rparr>"

text \<open>Callbacks for the timer function, and a function that records what it is called with.\<close>

definition webpack_callback :: "unit callback" where
  "webpack_callback = \<lparr>source = ''() => Reflect.deleteProperty(cache, id)'', body = ()\<rparr>"

definition plain_callback :: "unit callback" where
  "plain_callback = \<lparr>source = ''() => render()'', body = ()\<rparr>"

definition record_call :: "unit callback \<Rightarrow> int \<Rightarrow> nat list \<Rightarrow> unit callback \<times> int \<times> nat list" where
  "record_call cb delay args = (cb, delay, args)"

text \<open>
  A running application with cloud sync on and the patched timer function installed, and
  a busy five seconds: other code turns the flag on again and off again, the toggle is
  called a second time.
\<close>

definition fresh_app :: app where
  "fresh_app = \<lparr>Settings = \<lparr>cloud = Some 0\<rparr>,
                store = [0 \<mapsto> \<lparr>settingsSync = True\<rparr>],
                global_setTimeout = native_setTimeout,
                sched = \<lparr>now = 100, timers = []\<rparr>,
                plog = []\<rparr>"

definition app0 :: app where
  "app0 = optimizeWebpackLoading fresh_app"

definition busy_startup :: "event list" where
  "busy_startup = [Elapse 1000, AssignSync True, CallDisable, Elapse 2000, AssignSync False]"

section \<open>Properties of the media guard\<close>

lemmas guard_defs = setSinkId_wrapper_def getDisplayMedia_wrapper_def getUserMedia_wrapper_def
  invoke_def console_warn_def console_log_def

text \<open>
  Claim C4. With \<^verbatim>\<open>preventCrash\<close> off, whatever the original throws leaves each of the
  three wrappers (\<^verbatim>\<open>setSinkId\<close>, \<^verbatim>\<open>getDisplayMedia\<close>, \<^verbatim>\<open>getUserMedia\<close>) as the same value,
  for every receiver, argument, browser state and original.
\<close>

theorem guard_disabled_rethrows:
  assumes "\<not> preventCrash (settings pg)"
  shows "(fst (origS this sinkId (world pg)) = Inl e \<longrightarrow>
            fst (setSinkId_wrapper origS this sinkId pg) = Inl e) \<and>
         (fst (origD this cs (world pg)) = Inl e \<longrightarrow>
            fst (getDisplayMedia_wrapper origD this cs pg) = Inl e) \<and>
         (fst (origU this cs (world pg)) = Inl e \<longrightarrow>
            fst (getUserMedia_wrapper origU this cs pg) = Inl e)"
  using assms by (auto simp: guard_defs split: prod.splits sum.splits)

theorem guard_disabled_rethrows_witness:
  "\<not> preventCrash (settings (page0 False)) \<and>
   fst (thrower 7 ''speaker'' (world (page0 False))) = Inl (JsError ''NotReadableError'' ''device in use'') \<and>
   fst (setSinkId_wrapper thrower 7 ''speaker'' (page0 False)) = Inl (JsError ''NotReadableError'' ''device in use'') \<and>
   fst (getDisplayMedia_wrapper thrower 7 (Some av) (page0 False)) = Inl (JsError ''NotReadableError'' ''device in use'') \<and>
   fst (getUserMedia_wrapper thrower 7 (Some av) (page0 False)) = Inl (JsError ''NotReadableError'' ''device in use'')"
  using guard_disabled_rethrows [of "page0 False" thrower 7 "''speaker''"
      "JsError ''NotReadableError'' ''device in use''" thrower "Some av" thrower]
  by (simp add: page0_def thrower_def)

text \<open>
  Claim C5. With \<^verbatim>\<open>preventCrash\<close> on and \<^verbatim>\<open>constraints.video\<close> truthy, when the original
  \<^verbatim>\<open>getUserMedia\<close> throws, the wrapper calls it exactly once more, with the constraints
  \<^verbatim>\<open>{ audio: constraints.audio }\<close> (no video member) on the state the first call left, and
  the outcome of that second call is the wrapper's outcome.
\<close>

theorem getUserMedia_retries_audio_only:
  assumes "preventCrash (settings pg)" and "cs = Some c" and "truthy_member (video c)"
    and "orig this cs (world pg) = (Inl e, w1)"
  shows "fst (getUserMedia_wrapper orig this cs pg) =
           fst (orig this (Some \<lparr>audio = audio c, video = None\<rparr>) w1) \<and>
         world (snd (getUserMedia_wrapper orig this cs pg)) =
           snd (orig this (Some \<lparr>audio = audio c, video = None\<rparr>) w1) \<and>
         calls (snd (getUserMedia_wrapper orig this cs pg)) =
           calls pg @ [CallGetUserMedia this cs,
                       CallGetUserMedia this (Some \<lparr>audio = audio c, video = None\<rparr>)]"
  using assms
  by (auto simp: guard_defs video_requested_def audio_only_def Let_def split: prod.splits sum.splits)

theorem getUserMedia_retries_audio_only_witness:
  "preventCrash (settings (page0 True)) \<and> truthy_member (video av) \<and>
   video_fails 7 (Some av) (world (page0 True)) = (Inl (JsError ''NotReadableError'' ''camera in use''), 1) \<and>
   fst (getUserMedia_wrapper video_fails 7 (Some av) (page0 True)) = Inr (Resolved (MediaStream [''mic''])) \<and>
   world (snd (getUserMedia_wrapper video_fails 7 (Some av) (page0 True))) = 2 \<and>
   calls (snd (getUserMedia_wrapper video_fails 7 (Some av) (page0 True))) =
     [CallGetUserMedia 7 (Some av), CallGetUserMedia 7 (Some \<lparr>audio = Some (Flag True), video = None\<rparr>)]"
  using getUserMedia_retries_audio_only [of "page0 True" "Some av" av video_fails 7
      "JsError ''NotReadableError'' ''camera in use''" 1]
  by (simp add: page0_def video_fails_def av_def video_requested_def)

text \<open>
  Claim C6. With \<^verbatim>\<open>preventCrash\<close> on, when the original \<^verbatim>\<open>setSinkId\<close> throws, the wrapper
  installed by \<^verbatim>\<open>patchVoiceModule\<close> returns a resolved promise: nothing is thrown to the
  caller.
\<close>

theorem setSinkId_failure_suppressed:
  assumes "preventCrash (settings pg)" and "fst (orig this sinkId (world pg)) = Inl e"
    and "patchVoiceModule (Some orig) = Some wrapper"
  shows "fst (wrapper this sinkId pg) = Inr (Resolved ())"
  using assms
  by (auto simp: patchVoiceModule_def guard_defs Let_def split: prod.splits sum.splits)

theorem setSinkId_failure_suppressed_witness:
  "preventCrash (settings (page0 True)) \<and>
   fst (thrower 7 ''speaker'' (world (page0 True))) = Inl (JsError ''NotReadableError'' ''device in use'') \<and>
   patchVoiceModule (Some thrower) = Some (setSinkId_wrapper thrower) \<and>
   fst (setSinkId_wrapper thrower 7 ''speaker'' (page0 True)) = Inr (Resolved ())"
  using setSinkId_failure_suppressed [of "page0 True" thrower 7 "''speaker''"
      "JsError ''NotReadableError'' ''device in use''" "setSinkId_wrapper thrower"]
  by (simp add: page0_def thrower_def patchVoiceModule_def)

text \<open>
  Claim C7, as stated: no wrapper call makes more than one call of the original. It fails
  for \<^verbatim>\<open>getUserMedia\<close>: with \<^verbatim>\<open>preventCrash\<close> on and video requested, an original that
  throws is called twice.
\<close>

theorem guard_single_call_counterexample:
  "length (calls (snd (getUserMedia_wrapper thrower 7 (Some av) (page0 True)))) = 2 \<and>
   \<not> length (calls (snd (getUserMedia_wrapper thrower 7 (Some av) (page0 True)))) \<le> 1"
  by (simp add: guard_defs page0_def thrower_def av_def video_requested_def audio_only_def)

text \<open>
  Claim C7, amended. The \<^verbatim>\<open>setSinkId\<close> and \<^verbatim>\<open>getDisplayMedia\<close> wrappers call their original
  exactly once. When that call throws, they return their fallback at once if
  \<^verbatim>\<open>preventCrash\<close> is on (a resolved promise; a resolved promise of an empty
  \<^verbatim>\<open>MediaStream\<close>) and rethrow the exception if it is off; otherwise they return what the
  original returned. The \<^verbatim>\<open>getUserMedia\<close> wrapper calls its original once and, exactly when
  that call throws with \<^verbatim>\<open>preventCrash\<close> on and video requested, a second time with the
  audio-only constraints, and the outcome of that second call is then the wrapper's; in
  every other case its outcome is that of the first call. It never makes a third call.
\<close>

theorem guard_calls_and_fallbacks:
  "calls (snd (setSinkId_wrapper origS this sinkId pg)) = calls pg @ [CallSetSinkId this sinkId] \<and>
   fst (setSinkId_wrapper origS this sinkId pg) =
     (case fst (origS this sinkId (world pg)) of
        Inr p \<Rightarrow> Inr p
      | Inl e \<Rightarrow> if preventCrash (settings pg) then Inr (Resolved ()) else Inl e) \<and>
   calls (snd (getDisplayMedia_wrapper origD this cs pg)) = calls pg @ [CallGetDisplayMedia this cs] \<and>
   fst (getDisplayMedia_wrapper origD this cs pg) =
     (case fst (origD this cs (world pg)) of
        Inr p \<Rightarrow> Inr p
      | Inl e \<Rightarrow> if preventCrash (settings pg) then Inr (Resolved (MediaStream [])) else Inl e) \<and>
   calls (snd (getUserMedia_wrapper origU this cs pg)) =
     calls pg @ CallGetUserMedia this cs #
       (if isl (fst (origU this cs (world pg))) \<and> preventCrash (settings pg) \<and> video_requested cs
        then [CallGetUserMedia this (map_option audio_only cs)] else []) \<and>
   fst (getUserMedia_wrapper origU this cs pg) =
     (case origU this cs (world pg) of
        (Inr p, w1) \<Rightarrow> Inr p
      | (Inl e, w1) \<Rightarrow>
          if preventCrash (settings pg) \<and> video_requested cs
          then fst (origU this (map_option audio_only cs) w1) else Inl e)"
proof -
  have s: "calls (snd (setSinkId_wrapper origS this sinkId pg)) = calls pg @ [CallSetSinkId this sinkId] \<and>
   fst (setSinkId_wrapper origS this sinkId pg) =
     (case fst (origS this sinkId (world pg)) of
        Inr p \<Rightarrow> Inr p
      | Inl e \<Rightarrow> if preventCrash (settings pg) then Inr (Resolved ()) else Inl e)"
    by (auto simp: guard_defs Let_def split: prod.splits sum.splits)
  have d: "calls (snd (getDisplayMedia_wrapper origD this cs pg)) = calls pg @ [CallGetDisplayMedia this cs] \<and>
   fst (getDisplayMedia_wrapper origD this cs pg) =
     (case fst (origD this cs (world pg)) of
        Inr p \<Rightarrow> Inr p
      | Inl e \<Rightarrow> if preventCrash (settings pg) then Inr (Resolved (MediaStream [])) else Inl e)"
    by (auto simp: guard_defs Let_def split: prod.splits sum.splits)
  have u1: "calls (snd (getUserMedia_wrapper origU this cs pg)) =
     calls pg @ CallGetUserMedia this cs #
       (if isl (fst (origU this cs (world pg))) \<and> preventCrash (settings pg) \<and> video_requested cs
        then [CallGetUserMedia this (map_option audio_only cs)] else [])"
    by (auto simp: guard_defs video_requested_def Let_def split: prod.splits sum.splits option.splits)
  have u2: "fst (getUserMedia_wrapper origU this cs pg) =
     (case origU this cs (world pg) of
        (Inr p, w1) \<Rightarrow> Inr p
      | (Inl e, w1) \<Rightarrow>
          if preventCrash (settings pg) \<and> video_requested cs
          then fst (origU this (map_option audio_only cs) w1) else Inl e)"
    by (auto simp: guard_defs video_requested_def Let_def split: prod.splits sum.splits option.splits)
  from s d u1 u2 show ?thesis by blast
qed

theorem guard_calls_and_fallbacks_witness:
  "fst (getDisplayMedia_wrapper thrower 7 (Some av) (page0 True)) = Inr (Resolved (MediaStream [])) \<and>
   calls (snd (getDisplayMedia_wrapper thrower 7 (Some av) (page0 True))) = [CallGetDisplayMedia 7 (Some av)] \<and>
   fst (getDisplayMedia_wrapper thrower 7 (Some av) (page0 False)) =
     Inl (JsError ''NotReadableError'' ''device in use'') \<and>
   fst (getDisplayMedia_wrapper always_ok 7 (Some av) (page0 True)) =
     Inr (Resolved (MediaStream [''screen''])) \<and>
   fst (setSinkId_wrapper thrower 7 ''speaker'' (page0 True)) = Inr (Resolved ()) \<and>
   calls (snd (setSinkId_wrapper thrower 7 ''speaker'' (page0 True))) = [CallSetSinkId 7 ''speaker''] \<and>
   fst (getUserMedia_wrapper video_fails 7 (Some av) (page0 True)) = Inr (Resolved (MediaStream [''mic''])) \<and>
   length (calls (snd (getUserMedia_wrapper video_fails 7 (Some av) (page0 True)))) = 2"
  using guard_calls_and_fallbacks [of thrower 7 "''speaker''" "page0 True" thrower "Some av" video_fails]
    guard_calls_and_fallbacks [of thrower 7 "''speaker''" "page0 False" thrower "Some av" video_fails]
    guard_calls_and_fallbacks [of thrower 7 "''speaker''" "page0 True" always_ok "Some av" video_fails]
  by (simp add: page0_def thrower_def always_ok_def video_fails_def av_def video_requested_def audio_only_def)

text \<open>
  Claim C10. With \<^verbatim>\<open>preventCrash\<close> on and \<^verbatim>\<open>constraints?.video\<close> falsy (no constraints, no
  video member, or \<^verbatim>\<open>video: false\<close>), what the original \<^verbatim>\<open>getUserMedia\<close> throws leaves the
  wrapper as the same value, and the original is not called again.
\<close>

theorem getUserMedia_audio_only_rethrows:
  assumes "preventCrash (settings pg)" and "\<not> video_requested cs"
    and "fst (orig this cs (world pg)) = Inl e"
  shows "fst (getUserMedia_wrapper orig this cs pg) = Inl e \<and>
         calls (snd (getUserMedia_wrapper orig this cs pg)) = calls pg @ [CallGetUserMedia this cs]"
  using assms by (auto simp: guard_defs split: prod.splits sum.splits)

theorem getUserMedia_audio_only_rethrows_witness:
  "preventCrash (settings (page0 True)) \<and> \<not> video_requested (Some audio_request) \<and>
   \<not> video_requested None \<and>
   fst (thrower 7 (Some audio_request) (world (page0 True))) = Inl (JsError ''NotReadableError'' ''device in use'') \<and>
   fst (getUserMedia_wrapper thrower 7 (Some audio_request) (page0 True)) =
     Inl (JsError ''NotReadableError'' ''device in use'') \<and>
   calls (snd (getUserMedia_wrapper thrower 7 (Some audio_request) (page0 True))) =
     [CallGetUserMedia 7 (Some audio_request)]"
  using getUserMedia_audio_only_rethrows [of "page0 True" "Some audio_request" thrower 7
      "JsError ''NotReadableError'' ''device in use''"]
  by (simp add: page0_def thrower_def audio_request_def video_requested_def)

section \<open>Properties of the component waiter\<close>

declare attemptLoad.simps [simp del]

subsection \<open>The races of one attempt\<close>

lemma loadPromise_state: "state (loadPromise index rep) = Resolved ()"
  by (simp add: loadPromise_def timer_fired_def matched_def menuResolve_def new_race_def Let_def
      split: reply.splits)

lemma loadPromise_settled_at: "settled_at (loadPromise index rep) \<le> QUERY_TIMEOUT"
  by (simp add: loadPromise_def timer_fired_def matched_def menuResolve_def new_race_def Let_def
      split: reply.splits)

lemma promise_all_resolved: "\<forall>p \<in> set ps. p = Resolved () \<Longrightarrow> promise_all ps = Resolved ()"
proof (induction ps)
  case Nil
  show ?case by simp
next
  case (Cons p ps)
  from Cons.prems have "p = Resolved ()" by simp
  moreover from Cons have "promise_all ps = Resolved ()" by simp
  ultimately show ?case by simp
qed

lemma join_resolved:
  "promise_all (map state (map (\<lambda>(index, sel). loadPromise index (f index sel)) xs)) = Resolved ()"
  by (rule promise_all_resolved) (auto simp: loadPromise_state)

subsection \<open>One call of \<^verbatim>\<open>attemptLoad\<close>\<close>

text \<open>
  Every race of an attempt settles, so the joined promise is fulfilled and the verification
  is made. What the attempt does then depends on the answer to the verification alone.
\<close>

lemma attemptLoad_step:
  "\<exists>st3. result st3 = result st \<and> attempts st3 = attempts st + 1 \<and> retry_delays st3 = retry_delays st \<and>
     attemptLoad reg a st =
       (case critical_reply reg a of
          NoCallback \<Rightarrow> st3
        | Callback t c \<Rightarrow>
            (let st4 = st3\<lparr>clock := clock st3 + t\<rparr>
             in if truthy c then settle (Resolved ()) (logger CriticalVerified st4)
                else if a < MAX_RETRIES then
                  attemptLoad reg (a + 1)
                    ((logger (VerificationRetry (a + 1)) st4)
                       \<lparr>retry_delays := retry_delays st4 @ [RETRY_DELAY],
                        clock := clock st4 + RETRY_DELAY\<rparr>)
                else settle (Rejected (JsError ''Error'' ''Menu components failed to load''))
                       (logger LoadFailed st4)))"
proof -
  define loadPromises where "loadPromises =
    map (\<lambda>(index, sel). loadPromise index (selector_reply reg a index sel)) (enumerate 0 menuSelectors)"
  define st2 where "st2 = (logger (AttemptInfo a) (st\<lparr>attempts := attempts st + 1\<rparr>))\<lparr>races := races (logger (AttemptInfo a) (st\<lparr>attempts := attempts st + 1\<rparr>)) @ [loadPromises]\<rparr>"
  define st3 where "st3 = st2\<lparr>clock := clock st2 + fold max (map settled_at loadPromises) 0\<rparr>"
  have j: "promise_all (map state loadPromises) = Resolved ()"
    unfolding loadPromises_def by (rule join_resolved)
  have "attemptLoad reg a st =
       (case critical_reply reg a of
          NoCallback \<Rightarrow> st3
        | Callback t c \<Rightarrow>
            (let st4 = st3\<lparr>clock := clock st3 + t\<rparr>
             in if truthy c then settle (Resolved ()) (logger CriticalVerified st4)
                else if a < MAX_RETRIES then
                  attemptLoad reg (a + 1)
                    ((logger (VerificationRetry (a + 1)) st4)
                       \<lparr>retry_delays := retry_delays st4 @ [RETRY_DELAY],
                        clock := clock st4 + RETRY_DELAY\<rparr>)
                else settle (Rejected (JsError ''Error'' ''Menu components failed to load''))
                       (logger LoadFailed st4)))"
    apply (subst attemptLoad.simps)
    apply (unfold Let_def)
    apply (fold loadPromises_def)
    apply (fold st2_def)
    apply (simp only: j promise.case)
    apply (fold st3_def)
    apply (rule refl)
    done
  moreover have "result st3 = result st \<and> attempts st3 = attempts st + 1 \<and> retry_delays st3 = retry_delays st"
    by (simp add: st3_def st2_def logger_def)
  ultimately show ?thesis by blast
qed

lemma settle_fields:
  "result (settle p st) = (case result st of Pending \<Rightarrow> p | Resolved u \<Rightarrow> Resolved u | Rejected e \<Rightarrow> Rejected e)"
  "attempts (settle p st) = attempts st"
  "retry_delays (settle p st) = retry_delays st"
  by (simp_all add: settle_def split: promise.splits)

lemma logger_fields:
  "result (logger l st) = result st"
  "attempts (logger l st) = attempts st"
  "retry_delays (logger l st) = retry_delays st"
  by (simp_all add: logger_def)

lemma attemptLoad_NoCallback:
  assumes "critical_reply reg a = NoCallback"
  shows "result (attemptLoad reg a st) = result st \<and>
         attempts (attemptLoad reg a st) = attempts st + 1 \<and>
         retry_delays (attemptLoad reg a st) = retry_delays st"
  using attemptLoad_step [of st reg a] assms by auto

lemma attemptLoad_truthy:
  assumes "critical_reply reg a = Callback t c" and "truthy c"
  shows "result (attemptLoad reg a st) =
           (case result st of Pending \<Rightarrow> Resolved () | Resolved u \<Rightarrow> Resolved u | Rejected e \<Rightarrow> Rejected e) \<and>
         attempts (attemptLoad reg a st) = attempts st + 1 \<and>
         retry_delays (attemptLoad reg a st) = retry_delays st"
  using attemptLoad_step [of st reg a] assms
  by (auto simp: settle_fields logger_fields Let_def)

lemma attemptLoad_last:
  assumes "critical_reply reg a = Callback t c" and "\<not> truthy c" and "\<not> a < MAX_RETRIES"
  shows "result (attemptLoad reg a st) =
           (case result st of Pending \<Rightarrow> Rejected (JsError ''Error'' ''Menu components failed to load'')
            | Resolved u \<Rightarrow> Resolved u | Rejected e \<Rightarrow> Rejected e) \<and>
         attempts (attemptLoad reg a st) = attempts st + 1 \<and>
         retry_delays (attemptLoad reg a st) = retry_delays st"
  using attemptLoad_step [of st reg a] assms
  by (auto simp: settle_fields logger_fields Let_def)

lemma attemptLoad_retry:
  assumes "critical_reply reg a = Callback t c" and "\<not> truthy c" and "a < MAX_RETRIES"
  shows "\<exists>st'. result st' = result st \<and> attempts st' = attempts st + 1 \<and>
           retry_delays st' = retry_delays st @ [RETRY_DELAY] \<and>
           attemptLoad reg a st = attemptLoad reg (a + 1) st'"
proof -
  from attemptLoad_step [of st reg a] obtain st3 where
    f: "result st3 = result st" "attempts st3 = attempts st + 1" "retry_delays st3 = retry_delays st"
    and e: "attemptLoad reg a st =
       (case critical_reply reg a of
          NoCallback \<Rightarrow> st3
        | Callback t c \<Rightarrow>
            (let st4 = st3\<lparr>clock := clock st3 + t\<rparr>
             in if truthy c then settle (Resolved ()) (logger CriticalVerified st4)
                else if a < MAX_RETRIES then
                  attemptLoad reg (a + 1)
                    ((logger (VerificationRetry (a + 1)) st4)
                       \<lparr>retry_delays := retry_delays st4 @ [RETRY_DELAY],
                        clock := clock st4 + RETRY_DELAY\<rparr>)
                else settle (Rejected (JsError ''Error'' ''Menu components failed to load''))
                       (logger LoadFailed st4)))"
    by blast
  define st' where "st' = (logger (VerificationRetry (a + 1)) (st3\<lparr>clock := clock st3 + t\<rparr>))
                       \<lparr>retry_delays := retry_delays (st3\<lparr>clock := clock st3 + t\<rparr>) @ [RETRY_DELAY],
                        clock := clock (st3\<lparr>clock := clock st3 + t\<rparr>) + RETRY_DELAY\<rparr>"
  have "attemptLoad reg a st = attemptLoad reg (a + 1) st'"
    using e assms by (simp add: Let_def st'_def)
  moreover have "result st' = result st \<and> attempts st' = attempts st + 1 \<and>
           retry_delays st' = retry_delays st @ [RETRY_DELAY]"
    using f by (simp add: st'_def logger_def)
  ultimately show ?thesis by blast
qed

subsection \<open>The retry loop\<close>

lemma verified_within_unfold:
  assumes "a \<le> m"
  shows "verified_within reg a m \<longleftrightarrow>
           critical_truthy reg a \<or> (critical_falsy reg a \<and> a < m \<and> verified_within reg (a + 1) m)"
proof
  assume "verified_within reg a m"
  then obtain k where k: "a \<le> k" "k \<le> m" "critical_truthy reg k"
      "\<forall>j \<in> {a..<k}. critical_falsy reg j"
    by (auto simp: verified_within_def)
  show "critical_truthy reg a \<or> (critical_falsy reg a \<and> a < m \<and> verified_within reg (a + 1) m)"
  proof (cases "k = a")
    case True
    with k show ?thesis by simp
  next
    case False
    with k have "a < k" by simp
    with k have "critical_falsy reg a" "a < m" by auto
    moreover from k \<open>a < k\<close> have "verified_within reg (a + 1) m"
      unfolding verified_within_def by (intro bexI [of _ k]) auto
    ultimately show ?thesis by simp
  qed
next
  assume r: "critical_truthy reg a \<or> (critical_falsy reg a \<and> a < m \<and> verified_within reg (a + 1) m)"
  show "verified_within reg a m"
  proof (cases "critical_truthy reg a")
    case True
    with assms show ?thesis
      unfolding verified_within_def by (intro bexI [of _ a]) auto
  next
    case False
    with r have fa: "critical_falsy reg a" and "verified_within reg (a + 1) m" by auto
    then obtain k where k: "a + 1 \<le> k" "k \<le> m" "critical_truthy reg k"
        "\<forall>j \<in> {a + 1..<k}. critical_falsy reg j"
      by (auto simp: verified_within_def)
    have "\<forall>j \<in> {a..<k}. critical_falsy reg j"
    proof
      fix j assume "j \<in> {a..<k}"
      then have "j = a \<or> j \<in> {a + 1..<k}" by auto
      with fa k show "critical_falsy reg j" by auto
    qed
    with k show ?thesis
      unfolding verified_within_def by (intro bexI [of _ k]) auto
  qed
qed

lemma attemptLoad_resolved_iff:
  assumes "result st = Pending" and "a \<le> MAX_RETRIES"
  shows "result (attemptLoad reg a st) = Resolved () \<longleftrightarrow> verified_within reg a MAX_RETRIES"
  using assms
proof (induction "MAX_RETRIES - a" arbitrary: a st)
  case 0
  then have am: "a = MAX_RETRIES" by simp
  show ?case
  proof (cases "critical_reply reg a")
    case NoCallback
    with 0 am show ?thesis
      using attemptLoad_NoCallback [of reg a st] verified_within_unfold [of a MAX_RETRIES reg]
      by (simp add: critical_truthy_def critical_falsy_def)
  next
    case (Callback t c)
    show ?thesis
    proof (cases "truthy c")
      case True
      with Callback 0 am show ?thesis
        using attemptLoad_truthy [of reg a t c st] verified_within_unfold [of a MAX_RETRIES reg]
        by (simp add: critical_truthy_def critical_falsy_def)
    next
      case False
      with Callback 0 am show ?thesis
        using attemptLoad_last [of reg a t c st] verified_within_unfold [of a MAX_RETRIES reg]
        by (simp add: critical_truthy_def critical_falsy_def)
    qed
  qed
next
  case (Suc n)
  then have lt: "a < MAX_RETRIES" by simp
  show ?case
  proof (cases "critical_reply reg a")
    case NoCallback
    with Suc.prems show ?thesis
      using attemptLoad_NoCallback [of reg a st] verified_within_unfold [of a MAX_RETRIES reg]
      by (simp add: critical_truthy_def critical_falsy_def)
  next
    case (Callback t c)
    show ?thesis
    proof (cases "truthy c")
      case True
      with Callback Suc.prems show ?thesis
        using attemptLoad_truthy [of reg a t c st] verified_within_unfold [of a MAX_RETRIES reg]
        by (simp add: critical_truthy_def critical_falsy_def)
    next
      case False
      from attemptLoad_retry [OF Callback False lt, of st] obtain st' where
        st': "result st' = result st" "attemptLoad reg a st = attemptLoad reg (a + 1) st'"
        by blast
      from Suc.hyps(2) lt have "n = MAX_RETRIES - (a + 1)" by simp
      from Suc.hyps(1) [OF this] st' Suc.prems lt
      have "result (attemptLoad reg (a + 1) st') = Resolved () \<longleftrightarrow>
              verified_within reg (a + 1) MAX_RETRIES"
        by simp
      with st' Callback False lt show ?thesis
        using verified_within_unfold [of a MAX_RETRIES reg]
        by (simp add: critical_truthy_def critical_falsy_def)
    qed
  qed
qed

lemma attemptLoad_attempts:
  assumes "a \<le> MAX_RETRIES"
  shows "attempts st < attempts (attemptLoad reg a st) \<and>
         attempts (attemptLoad reg a st) \<le> attempts st + (MAX_RETRIES + 1 - a)"
  using assms
proof (induction "MAX_RETRIES - a" arbitrary: a st)
  case 0
  then have nlt: "\<not> a < MAX_RETRIES" by simp
  show ?case
  proof (cases "critical_reply reg a")
    case NoCallback
    with 0 show ?thesis using attemptLoad_NoCallback [of reg a st] by simp
  next
    case (Callback t c)
    with 0 nlt show ?thesis
      using attemptLoad_truthy [of reg a t c st] attemptLoad_last [of reg a t c st]
      by (cases "truthy c") simp_all
  qed
next
  case (Suc n)
  then have lt: "a < MAX_RETRIES" by simp
  show ?case
  proof (cases "critical_reply reg a")
    case NoCallback
    with Suc.prems show ?thesis using attemptLoad_NoCallback [of reg a st] by simp
  next
    case (Callback t c)
    show ?thesis
    proof (cases "truthy c")
      case True
      with Callback Suc.prems show ?thesis using attemptLoad_truthy [of reg a t c st] by simp
    next
      case False
      from attemptLoad_retry [OF Callback False lt, of st] obtain st' where
        st': "attempts st' = attempts st + 1" "attemptLoad reg a st = attemptLoad reg (a + 1) st'"
        by blast
      from Suc.hyps(2) lt have "n = MAX_RETRIES - (a + 1)" by simp
      from Suc.hyps(1) [OF this, of st'] lt
      have "attempts st' < attempts (attemptLoad reg (a + 1) st') \<and>
            attempts (attemptLoad reg (a + 1) st') \<le> attempts st' + (MAX_RETRIES + 1 - (a + 1))"
        by simp
      with st'(1) lt show ?thesis unfolding st'(2) by arith
    qed
  qed
qed

lemma attemptLoad_independent:
  assumes "critical_reply reg' = critical_reply reg" and "result st' = result st"
    and "attempts st' = attempts st" and "retry_delays st' = retry_delays st"
  shows "result (attemptLoad reg' a st') = result (attemptLoad reg a st) \<and>
         attempts (attemptLoad reg' a st') = attempts (attemptLoad reg a st) \<and>
         retry_delays (attemptLoad reg' a st') = retry_delays (attemptLoad reg a st)"
  using assms(2-4)
proof (induction "MAX_RETRIES - a" arbitrary: a st st')
  case 0
  then have nlt: "\<not> a < MAX_RETRIES" by simp
  show ?case
  proof (cases "critical_reply reg a")
    case NoCallback
    with 0 assms(1) show ?thesis
      using attemptLoad_NoCallback [of reg a st] attemptLoad_NoCallback [of reg' a st'] by simp
  next
    case (Callback t c)
    with 0 nlt assms(1) show ?thesis
      using attemptLoad_truthy [of reg a t c st] attemptLoad_last [of reg a t c st]
        attemptLoad_truthy [of reg' a t c st'] attemptLoad_last [of reg' a t c st']
      by (cases "truthy c") simp_all
  qed
next
  case (Suc n)
  then have lt: "a < MAX_RETRIES" by simp
  show ?case
  proof (cases "critical_reply reg a")
    case NoCallback
    with Suc.prems assms(1) show ?thesis
      using attemptLoad_NoCallback [of reg a st] attemptLoad_NoCallback [of reg' a st'] by simp
  next
    case (Callback t c)
    show ?thesis
    proof (cases "truthy c")
      case True
      with Callback Suc.prems assms(1) show ?thesis
        using attemptLoad_truthy [of reg a t c st] attemptLoad_truthy [of reg' a t c st'] by simp
    next
      case False
      from Callback assms(1) have cb': "critical_reply reg' a = Callback t c" by simp
      from attemptLoad_retry [OF Callback False lt, of st] obtain s1 where
        s1: "result s1 = result st" "attempts s1 = attempts st + 1"
          "retry_delays s1 = retry_delays st @ [RETRY_DELAY]"
          "attemptLoad reg a st = attemptLoad reg (a + 1) s1"
        by blast
      from attemptLoad_retry [OF cb' False lt, of st'] obtain s1' where
        s1': "result s1' = result st'" "attempts s1' = attempts st' + 1"
          "retry_delays s1' = retry_delays st' @ [RETRY_DELAY]"
          "attemptLoad reg' a st' = attemptLoad reg' (a + 1) s1'"
        by blast
      from Suc.hyps(2) lt have n: "n = MAX_RETRIES - (a + 1)" by simp
      have "result s1' = result s1" "attempts s1' = attempts s1" "retry_delays s1' = retry_delays s1"
        using s1 s1' Suc.prems by simp_all
      from Suc.hyps(1) [OF n this] show ?thesis
        unfolding s1(4) s1'(4) .
    qed
  qed
qed

lemma attemptLoad_all_falsy:
  assumes "result st = Pending" and "a \<le> MAX_RETRIES"
    and "\<forall>j \<in> {a..MAX_RETRIES}. critical_falsy reg j"
  shows "result (attemptLoad reg a st) = Rejected (JsError ''Error'' ''Menu components failed to load'') \<and>
         attempts (attemptLoad reg a st) = attempts st + (MAX_RETRIES + 1 - a) \<and>
         retry_delays (attemptLoad reg a st) = retry_delays st @ replicate (MAX_RETRIES - a) RETRY_DELAY"
  using assms
proof (induction "MAX_RETRIES - a" arbitrary: a st)
  case 0
  then have am: "a = MAX_RETRIES" by simp
  with 0 have "critical_falsy reg a" by simp
  then obtain t c where cb: "critical_reply reg a = Callback t c" "\<not> truthy c"
    by (auto simp: critical_falsy_def split: reply.splits)
  with 0 am show ?case
    using attemptLoad_last [of reg a t c st] by simp
next
  case (Suc n)
  then have lt: "a < MAX_RETRIES" by simp
  with Suc.prems have "critical_falsy reg a" by simp
  then obtain t c where cb: "critical_reply reg a = Callback t c" "\<not> truthy c"
    by (auto simp: critical_falsy_def split: reply.splits)
  from attemptLoad_retry [OF cb lt, of st] obtain s1 where
    s1: "result s1 = result st" "attempts s1 = attempts st + 1"
      "retry_delays s1 = retry_delays st @ [RETRY_DELAY]"
      "attemptLoad reg a st = attemptLoad reg (a + 1) s1"
    by blast
  from Suc.hyps(2) lt have n: "n = MAX_RETRIES - (a + 1)" by simp
  have "\<forall>j \<in> {a + 1..MAX_RETRIES}. critical_falsy reg j"
    using Suc.prems(3) by auto
  with Suc.hyps(1) [OF n, of s1] s1 Suc.prems lt
  have ih: "result (attemptLoad reg (a + 1) s1) = Rejected (JsError ''Error'' ''Menu components failed to load'') \<and>
         attempts (attemptLoad reg (a + 1) s1) = attempts s1 + (MAX_RETRIES + 1 - (a + 1)) \<and>
         retry_delays (attemptLoad reg (a + 1) s1) = retry_delays s1 @ replicate (MAX_RETRIES - (a + 1)) RETRY_DELAY"
    by simp
  have "replicate (MAX_RETRIES - a) RETRY_DELAY = RETRY_DELAY # replicate (MAX_RETRIES - (a + 1)) RETRY_DELAY"
    using lt by (cases "MAX_RETRIES - a") simp_all
  with ih s1 lt show ?case
    unfolding s1(4) by simp
qed

subsection \<open>Claims about the waiter\<close>

text \<open>
  Claim C1. The promise \<^verbatim>\<open>ensureMenuComponents\<close> returns is resolved if and only if the
  critical query is answered with a truthy component within 5 attempts: in one of the
  attempts 1 to 5, each earlier attempt having been answered with a falsy component.
  \<^verbatim>\<open>attemptLoad\<close> is called at least once and never more than 5 times.
\<close>

theorem ensureMenuComponents_resolves_iff:
  "(result (ensureMenuComponents reg) = Resolved () \<longleftrightarrow>
      (\<exists>k \<in> {1..5}. critical_truthy reg k \<and> (\<forall>j \<in> {1..<k}. critical_falsy reg j))) \<and>
   1 \<le> attempts (ensureMenuComponents reg) \<and> attempts (ensureMenuComponents reg) \<le> 5"
proof -
  have m: "MAX_RETRIES = 5" by (simp add: MAX_RETRIES_def)
  have "result (attemptLoad reg 1 new_run) = Resolved () \<longleftrightarrow> verified_within reg 1 MAX_RETRIES"
    by (rule attemptLoad_resolved_iff) (simp_all add: new_run_def m)
  moreover have "attempts new_run < attempts (attemptLoad reg 1 new_run) \<and>
      attempts (attemptLoad reg 1 new_run) \<le> attempts new_run + (MAX_RETRIES + 1 - 1)"
    by (rule attemptLoad_attempts) (simp add: m)
  ultimately show ?thesis
    by (simp add: ensureMenuComponents_def verified_within_def m new_run_def)
qed

theorem ensureMenuComponents_resolves_iff_witness:
  "critical_falsy slow_registry 1 \<and> critical_falsy slow_registry 2 \<and>
   critical_truthy slow_registry 3 \<and>
   result (ensureMenuComponents slow_registry) = Resolved () \<and>
   attempts (ensureMenuComponents slow_registry) \<le> 5"
proof -
  have t: "critical_truthy slow_registry 3"
    by (simp add: critical_truthy_def slow_registry_def third_time_def)
  have f12: "critical_falsy slow_registry 1" "critical_falsy slow_registry 2"
    by (simp_all add: critical_falsy_def slow_registry_def third_time_def)
  have f: "\<forall>j \<in> {1..<3}. critical_falsy slow_registry j"
  proof
    fix j :: nat assume "j \<in> {1..<3}"
    then have "j = 1 \<or> j = 2" by auto
    with f12 show "critical_falsy slow_registry j" by auto
  qed
  from t f have "\<exists>k \<in> {1..5}. critical_truthy slow_registry k \<and> (\<forall>j \<in> {1..<k}. critical_falsy slow_registry j)"
    by (intro bexI [of _ 3]) simp_all
  with t f12 show ?thesis
    using ensureMenuComponents_resolves_iff [of slow_registry] by simp
qed

text \<open>
  Where each of the five verifications is answered with a falsy component, the promise is
  rejected after 5 attempts, with four retry timers of 1000 ms between them.
\<close>

lemma ensureMenuComponents_all_falsy:
  assumes "\<forall>j \<in> {1..5}. critical_falsy reg j"
  shows "result (ensureMenuComponents reg) = Rejected (JsError ''Error'' ''Menu components failed to load'') \<and>
         attempts (ensureMenuComponents reg) = 5 \<and>
         retry_delays (ensureMenuComponents reg) = [1000, 1000, 1000, 1000] \<and>
         sum_list (retry_delays (ensureMenuComponents reg)) = 4000"
proof -
  have m: "MAX_RETRIES = 5" by (simp add: MAX_RETRIES_def)
  have "result (attemptLoad reg 1 new_run) = Rejected (JsError ''Error'' ''Menu components failed to load'') \<and>
         attempts (attemptLoad reg 1 new_run) = attempts new_run + (MAX_RETRIES + 1 - 1) \<and>
         retry_delays (attemptLoad reg 1 new_run) = retry_delays new_run @ replicate (MAX_RETRIES - 1) RETRY_DELAY"
    by (rule attemptLoad_all_falsy) (use assms in \<open>simp_all add: new_run_def m\<close>)
  moreover have "replicate (MAX_RETRIES - 1) RETRY_DELAY = [1000, 1000, 1000, 1000]"
    by (simp add: m RETRY_DELAY_def numeral_eq_Suc)
  ultimately show ?thesis
    by (simp add: ensureMenuComponents_def new_run_def m)
qed

text \<open>
  Claim C2. The critical query never resolving to a truthy component includes the registry
  that never calls the verification's callback. There the first attempt is the last: the
  promise stays pending, it is not rejected, and no retry timer is set.
\<close>

theorem ensureMenuComponents_silent_registry:
  "critical_reply silent_registry 1 = NoCallback \<and>
   result (ensureMenuComponents silent_registry) = Pending \<and>
   attempts (ensureMenuComponents silent_registry) = 1 \<and>
   retry_delays (ensureMenuComponents silent_registry) = []"
  using attemptLoad_NoCallback [of silent_registry 1 new_run]
  by (simp add: ensureMenuComponents_def silent_registry_def new_run_def)

text \<open>
  Claim C3. Every race of \<^verbatim>\<open>loadPromises\<close> ends fulfilled, whether the registry answers
  before the timer, after it or never. The outcome of \<^verbatim>\<open>ensureMenuComponents\<close> (the state
  of its promise, the number of attempts, the retry timers) is the same for two registries
  that answer the verifications alike, whatever they answer to the listed queries; so where
  the critical query is answered with a truthy component within the 5 attempts the promise
  is resolved, also when every listed query has timed out.
\<close>

theorem per_query_timeout_not_fatal:
  "state (loadPromise index rep) = Resolved () \<and>
   (critical_reply reg' = critical_reply reg \<longrightarrow>
      result (ensureMenuComponents reg') = result (ensureMenuComponents reg) \<and>
      attempts (ensureMenuComponents reg') = attempts (ensureMenuComponents reg) \<and>
      retry_delays (ensureMenuComponents reg') = retry_delays (ensureMenuComponents reg)) \<and>
   ((\<exists>k \<in> {1..5}. critical_truthy reg k \<and> (\<forall>j \<in> {1..<k}. critical_falsy reg j)) \<longrightarrow>
      result (ensureMenuComponents reg) = Resolved ())"
proof -
  have m: "MAX_RETRIES = 5" by (simp add: MAX_RETRIES_def)
  have "result (attemptLoad reg 1 new_run) = Resolved () \<longleftrightarrow> verified_within reg 1 MAX_RETRIES"
    by (rule attemptLoad_resolved_iff) (simp_all add: new_run_def m)
  then have a: "(\<exists>k \<in> {1..5}. critical_truthy reg k \<and> (\<forall>j \<in> {1..<k}. critical_falsy reg j)) \<longrightarrow>
      result (ensureMenuComponents reg) = Resolved ()"
    by (simp add: ensureMenuComponents_def verified_within_def m)
  have b: "critical_reply reg' = critical_reply reg \<longrightarrow>
      result (ensureMenuComponents reg') = result (ensureMenuComponents reg) \<and>
      attempts (ensureMenuComponents reg') = attempts (ensureMenuComponents reg) \<and>
      retry_delays (ensureMenuComponents reg') = retry_delays (ensureMenuComponents reg)"
    unfolding ensureMenuComponents_def
    using attemptLoad_independent [of reg' reg new_run new_run 1] by blast
  from a b loadPromise_state [of index rep] show ?thesis by blast
qed

theorem per_query_timeout_not_fatal_witness:
  "selector_reply slow_registry 3 0 (ByName ''MenuCheckboxItem'') = NoCallback \<and>
   state (loadPromise 0 NoCallback) = Resolved () \<and>
   race_log (loadPromise 0 NoCallback) = [SelectorTimedOut 0] \<and>
   critical_reply prompt_registry = critical_reply slow_registry \<and>
   result (ensureMenuComponents prompt_registry) = result (ensureMenuComponents slow_registry) \<and>
   critical_falsy slow_registry 1 \<and> critical_falsy slow_registry 2 \<and>
   critical_truthy slow_registry 3 \<and>
   result (ensureMenuComponents slow_registry) = Resolved ()"
proof -
  have t: "critical_truthy slow_registry 3"
    by (simp add: critical_truthy_def slow_registry_def third_time_def)
  have f12: "critical_falsy slow_registry 1" "critical_falsy slow_registry 2"
    by (simp_all add: critical_falsy_def slow_registry_def third_time_def)
  have f: "\<forall>j \<in> {1..<3}. critical_falsy slow_registry j"
  proof
    fix j :: nat assume "j \<in> {1..<3}"
    then have "j = 1 \<or> j = 2" by auto
    with f12 show "critical_falsy slow_registry j" by auto
  qed
  from t f have e: "\<exists>k \<in> {1..5}. critical_truthy slow_registry k \<and> (\<forall>j \<in> {1..<k}. critical_falsy slow_registry j)"
    by (intro bexI [of _ 3]) simp_all
  have c: "critical_reply prompt_registry = critical_reply slow_registry"
    by (simp add: prompt_registry_def slow_registry_def)
  have l: "race_log (loadPromise 0 NoCallback) = [SelectorTimedOut 0]"
    by (simp add: loadPromise_def timer_fired_def menuResolve_def new_race_def)
  have s: "selector_reply slow_registry 3 0 (ByName ''MenuCheckboxItem'') = NoCallback"
    by (simp add: slow_registry_def)
  from per_query_timeout_not_fatal [of 0 NoCallback prompt_registry slow_registry] e c t f12 l s
  show ?thesis by simp
qed

section \<open>Properties of the startup optimizer\<close>

subsection \<open>The patched timer function\<close>

lemma starts_with_iff: "starts_with s pat \<longleftrightarrow> (\<exists>suf. s = pat @ suf)"
  by (induction s pat rule: starts_with.induct) auto

lemma js_includes_iff: "js_includes s pat \<longleftrightarrow> (\<exists>pre suf. s = pre @ pat @ suf)"
proof (induction s)
  case Nil
  show ?case by auto
next
  case (Cons c cs)
  show ?case
  proof
    assume "js_includes (c # cs) pat"
    then consider "starts_with (c # cs) pat" | "js_includes cs pat" by auto
    then show "\<exists>pre suf. c # cs = pre @ pat @ suf"
    proof cases
      case 1
      then obtain suf where "c # cs = pat @ suf" by (auto simp: starts_with_iff)
      then have "c # cs = [] @ pat @ suf" by simp
      then show ?thesis by blast
    next
      case 2
      with Cons obtain pre suf where "cs = pre @ pat @ suf" by blast
      then have "c # cs = (c # pre) @ pat @ suf" by simp
      then show ?thesis by blast
    qed
  next
    assume "\<exists>pre suf. c # cs = pre @ pat @ suf"
    then obtain pre suf where e: "c # cs = pre @ pat @ suf" by blast
    show "js_includes (c # cs) pat"
    proof (cases pre)
      case Nil
      with e have "starts_with (c # cs) pat" by (auto simp: starts_with_iff)
      then show ?thesis by simp
    next
      case (Cons p ps)
      with e have "cs = ps @ pat @ suf" by simp
      with Cons.IH have "js_includes cs pat" by blast
      then show ?thesis by simp
    qed
  qed
qed

text \<open>
  Claim C9. The patched \<^verbatim>\<open>setTimeout\<close> passes the delay 1 to the original exactly when
  the delay is 0 and the callback's source text contains \<^verbatim>\<open>Reflect.deleteProperty\<close>; in
  every other case it passes the delay it was given. The callback and the arguments are
  passed on unchanged in both cases.
\<close>

theorem setTimeout_patched_forwards:
  "(delay = 0 \<and> (\<exists>pre suf. source cb = pre @ ''Reflect.deleteProperty'' @ suf) \<longrightarrow>
      setTimeout_patched original cb delay args = original cb 1 args) \<and>
   (\<not> (delay = 0 \<and> (\<exists>pre suf. source cb = pre @ ''Reflect.deleteProperty'' @ suf)) \<longrightarrow>
      setTimeout_patched original cb delay args = original cb delay args)"
proof -
  have i: "js_includes (source cb) ''Reflect.deleteProperty'' \<longleftrightarrow>
      (\<exists>pre suf. source cb = pre @ ''Reflect.deleteProperty'' @ suf)"
    by (rule js_includes_iff)
  show ?thesis
    unfolding setTimeout_patched_def i by (simp only: split: if_splits) blast
qed

theorem setTimeout_patched_forwards_witness:
  "source webpack_callback = ''() => '' @ ''Reflect.deleteProperty'' @ ''(cache, id)'' \<and>
   setTimeout_patched record_call webpack_callback 0 [1, 2] = (webpack_callback, 1, [1, 2]) \<and>
   setTimeout_patched record_call webpack_callback 250 [1, 2] = (webpack_callback, 250, [1, 2]) \<and>
   \<not> js_includes (source plain_callback) ''Reflect.deleteProperty'' \<and>
   setTimeout_patched record_call plain_callback 0 [] = (plain_callback, 0, [])"
proof -
  have s: "source webpack_callback = ''() => '' @ ''Reflect.deleteProperty'' @ ''(cache, id)''"
    by (simp add: webpack_callback_def)
  then have e: "\<exists>pre suf. source webpack_callback = pre @ ''Reflect.deleteProperty'' @ suf"
    by blast
  from setTimeout_patched_forwards [of 0 webpack_callback record_call "[1, 2]"] e
  have a: "setTimeout_patched record_call webpack_callback 0 [1, 2] = (webpack_callback, 1, [1, 2])"
    by (simp add: record_call_def)
  from setTimeout_patched_forwards [of 250 webpack_callback record_call "[1, 2]"]
  have b: "setTimeout_patched record_call webpack_callback 250 [1, 2] = (webpack_callback, 250, [1, 2])"
    by (simp add: record_call_def)
  have n: "\<not> js_includes (source plain_callback) ''Reflect.deleteProperty''"
    by (simp add: plain_callback_def)
  have "\<not> (\<exists>pre suf. source plain_callback = pre @ ''Reflect.deleteProperty'' @ suf)"
    using n js_includes_iff [of "source plain_callback" "''Reflect.deleteProperty''"] by blast
  with setTimeout_patched_forwards [of 0 plain_callback record_call "[]"]
  have c: "setTimeout_patched record_call plain_callback 0 [] = (plain_callback, 0, [])"
    by (simp add: record_call_def)
  from s a b n c show ?thesis by blast
qed

subsection \<open>The settings toggle\<close>

lemma host_timer_5000:
  assumes "host_timer f"
  shows "f restore_callback 5000 [] sch =
           sch\<lparr>timers := timers sch @ [\<lparr>due = now sch + 5000, handler = restore_callback, handler_args = []\<rparr>]\<rparr>"
  using assms by (auto simp: host_timer_def setTimeout_patched_def native_setTimeout_def)

lemma run_task_restores:
  assumes "well_formed a ap"
  shows "well_formed a (run_task k ap) \<and> live_settingsSync (run_task k ap) = Some True \<and>
         sched (run_task k ap) = sched ap"
  using assms
  by (cases k)
     (auto simp: well_formed_def live_settingsSync_def read_settingsSync_def write_settingsSync_def)

lemma fold_run_task:
  assumes "well_formed a ap"
  shows "well_formed a (fold (\<lambda>tm. run_task (body (handler tm))) tms ap) \<and>
         sched (fold (\<lambda>tm. run_task (body (handler tm))) tms ap) = sched ap \<and>
         live_settingsSync (fold (\<lambda>tm. run_task (body (handler tm))) tms ap) =
           (if tms = [] then live_settingsSync ap else Some True)"
  using assms
proof (induction tms arbitrary: ap rule: rev_induct)
  case Nil
  then show ?case by simp
next
  case (snoc tm tms)
  let ?mid = "fold (\<lambda>tm. run_task (body (handler tm))) tms ap"
  from snoc have "well_formed a ?mid" and s: "sched ?mid = sched ap" by simp_all
  from run_task_restores [OF this(1), of "body (handler tm)"] s show ?case by simp
qed

lemma elapse_props:
  assumes "well_formed a ap"
  shows "well_formed a (elapse d ap)"
    and "now (sched (elapse d ap)) = now (sched ap) + d"
    and "timers (sched (elapse d ap)) = filter (\<lambda>tm. \<not> due tm \<le> now (sched ap) + d) (timers (sched ap))"
    and "live_settingsSync (elapse d ap) =
           (if \<exists>tm \<in> set (timers (sched ap)). due tm \<le> now (sched ap) + d then Some True
            else live_settingsSync ap)"
proof -
  let ?t = "now (sched ap) + d"
  let ?ready = "sort_key due (filter (\<lambda>tm. due tm \<le> ?t) (timers (sched ap)))"
  let ?waiting = "filter (\<lambda>tm. \<not> due tm \<le> ?t) (timers (sched ap))"
  let ?ap1 = "ap\<lparr>sched := \<lparr>now = ?t, timers = ?waiting\<rparr>\<rparr>"
  have e: "elapse d ap = fold (\<lambda>tm. run_task (body (handler tm))) ?ready ?ap1"
    by (simp add: elapse_def Let_def)
  from assms have w: "well_formed a ?ap1" by (simp add: well_formed_def)
  note f = fold_run_task [OF w, of ?ready]
  from f show "well_formed a (elapse d ap)" unfolding e by simp
  from f show "now (sched (elapse d ap)) = now (sched ap) + d" unfolding e by simp
  from f show "timers (sched (elapse d ap)) = ?waiting" unfolding e by simp
  have "?ready = [] \<longleftrightarrow> \<not> (\<exists>tm \<in> set (timers (sched ap)). due tm \<le> ?t)"
    by (auto simp: filter_empty_conv simp flip: set_empty)
  moreover have "live_settingsSync ?ap1 = live_settingsSync ap"
    by (simp add: live_settingsSync_def)
  ultimately show "live_settingsSync (elapse d ap) =
           (if \<exists>tm \<in> set (timers (sched ap)). due tm \<le> ?t then Some True
            else live_settingsSync ap)"
    using f unfolding e by auto
qed

lemma disable_props:
  assumes "well_formed a ap"
  shows "well_formed a (disableHeavyFeaturesTemporarily ap)"
    and "now (sched (disableHeavyFeaturesTemporarily ap)) = now (sched ap)"
    and "set (timers (sched ap)) \<subseteq> set (timers (sched (disableHeavyFeaturesTemporarily ap)))"
  using assms
  by (auto simp: disableHeavyFeaturesTemporarily_def well_formed_def read_settingsSync_def
      write_settingsSync_def host_timer_5000 Let_def split: option.splits)

lemma disable_effect:
  assumes "well_formed a ap" and "live_settingsSync ap = Some True"
  shows "live_settingsSync (disableHeavyFeaturesTemporarily ap) = Some False"
    and "timers (sched (disableHeavyFeaturesTemporarily ap)) =
           timers (sched ap) @ [\<lparr>due = now (sched ap) + 5000, handler = restore_callback, handler_args = []\<rparr>]"
  using assms
  by (auto simp: disableHeavyFeaturesTemporarily_def well_formed_def read_settingsSync_def
      live_settingsSync_def write_settingsSync_def host_timer_5000 Let_def split: option.splits)

lemma elapsed_Cons: "elapsed (ev # evs) = duration ev + elapsed evs"
  by (cases ev) simp_all

lemma step_props:
  assumes "well_formed a ap" and "tm \<in> set (timers (sched ap))"
    and "now (sched ap) + duration ev < due tm"
  shows "well_formed a (step ev ap) \<and> now (sched (step ev ap)) = now (sched ap) + duration ev \<and>
         tm \<in> set (timers (sched (step ev ap)))"
proof (cases ev)
  case CallDisable
  with assms disable_props [OF assms(1)] show ?thesis by auto
next
  case (AssignSync b)
  with assms show ?thesis
    by (auto simp: well_formed_def write_settingsSync_def split: option.splits)
next
  case (Elapse d)
  with assms elapse_props(1-3) [OF assms(1), of d] show ?thesis by auto
qed

lemma run_events_props:
  assumes "well_formed a ap" and "tm \<in> set (timers (sched ap))"
    and "now (sched ap) + elapsed evs < due tm"
  shows "well_formed a (run_events evs ap) \<and>
         now (sched (run_events evs ap)) = now (sched ap) + elapsed evs \<and>
         tm \<in> set (timers (sched (run_events evs ap)))"
  using assms
proof (induction evs arbitrary: ap)
  case Nil
  then show ?case by (simp add: run_events_def)
next
  case (Cons ev evs)
  from Cons.prems have "now (sched ap) + duration ev < due tm"
    by (simp add: elapsed_Cons)
  from step_props [OF Cons.prems(1,2) this]
  have s: "well_formed a (step ev ap)" "now (sched (step ev ap)) = now (sched ap) + duration ev"
    "tm \<in> set (timers (sched (step ev ap)))" by simp_all
  from Cons.prems s have "now (sched (step ev ap)) + elapsed evs < due tm"
    by (simp add: elapsed_Cons)
  from Cons.IH [OF s(1) s(3) this] s(2) show ?case
    by (simp add: run_events_def elapsed_Cons)
qed

text \<open>
  Claim C8. Called with \<^verbatim>\<open>Settings.cloud.settingsSync\<close> true, the toggle leaves the live
  flag false and one more timer in the queue, due 5000 ms later. Whatever happens in
  between (further calls of the toggle, assignments to the flag, other timers running),
  the flag reads true once the 5000 ms have passed: the restore has no condition. Where no
  other timer was pending and nothing else happens, the flag reads false until then.
\<close>

theorem settingsSync_disabled_then_restored:
  assumes "live_settingsSync ap = Some True" and "host_timer (global_setTimeout ap)"
  shows "live_settingsSync (disableHeavyFeaturesTemporarily ap) = Some False \<and>
         timers (sched (disableHeavyFeaturesTemporarily ap)) =
           timers (sched ap) @ [\<lparr>due = now (sched ap) + 5000, handler = restore_callback, handler_args = []\<rparr>] \<and>
         (\<forall>evs. elapsed evs < 5000 \<longrightarrow>
            live_settingsSync (elapse (5000 - elapsed evs)
              (run_events evs (disableHeavyFeaturesTemporarily ap))) = Some True) \<and>
         (timers (sched ap) = [] \<longrightarrow>
            (\<forall>d < 5000. live_settingsSync (elapse d (disableHeavyFeaturesTemporarily ap)) = Some False))"
proof -
  let ?ap1 = "disableHeavyFeaturesTemporarily ap"
  let ?tm = "\<lparr>due = now (sched ap) + 5000, handler = restore_callback, handler_args = []\<rparr>"
  from assms obtain a where wf: "well_formed a ap"
    by (auto simp: live_settingsSync_def read_settingsSync_def well_formed_def split: option.splits)
  note eff = disable_effect [OF wf assms(1)]
  note dp = disable_props [OF wf]
  have tm: "?tm \<in> set (timers (sched ?ap1))" using eff(2) by simp
  have restored: "live_settingsSync (elapse (5000 - elapsed evs) (run_events evs ?ap1)) = Some True"
    if lt: "elapsed evs < 5000" for evs
  proof -
    from lt dp(2) have "now (sched ?ap1) + elapsed evs < due ?tm" by simp
    from run_events_props [OF dp(1) tm this]
    have r: "well_formed a (run_events evs ?ap1)"
      "now (sched (run_events evs ?ap1)) = now (sched ?ap1) + elapsed evs"
      "?tm \<in> set (timers (sched (run_events evs ?ap1)))" by simp_all
    from r(2) dp(2) lt have "due ?tm \<le> now (sched (run_events evs ?ap1)) + (5000 - elapsed evs)"
      by simp
    with r(3) have "\<exists>tm \<in> set (timers (sched (run_events evs ?ap1))).
        due tm \<le> now (sched (run_events evs ?ap1)) + (5000 - elapsed evs)"
      by blast
    with elapse_props(4) [OF r(1), of "5000 - elapsed evs"] show ?thesis by simp
  qed
  have early: "live_settingsSync (elapse d ?ap1) = Some False"
    if "timers (sched ap) = []" and "d < 5000" for d
  proof -
    from that eff(2) dp(2)
    have "\<not> (\<exists>tm \<in> set (timers (sched ?ap1)). due tm \<le> now (sched ?ap1) + d)" by simp
    with elapse_props(4) [OF dp(1), of d] eff(1) show ?thesis by simp
  qed
  from eff restored early show ?thesis by blast
qed

theorem settingsSync_disabled_then_restored_witness:
  "live_settingsSync app0 = Some True \<and> host_timer (global_setTimeout app0) \<and>
   live_settingsSync (disableHeavyFeaturesTemporarily app0) = Some False \<and>
   elapsed busy_startup < 5000 \<and>
   live_settingsSync (elapse 2000 (run_events busy_startup (disableHeavyFeaturesTemporarily app0))) = Some True \<and>
   timers (sched app0) = [] \<and>
   live_settingsSync (elapse 4999 (disableHeavyFeaturesTemporarily app0)) = Some False"
proof -
  have l: "live_settingsSync app0 = Some True"
    by (simp add: live_settingsSync_def read_settingsSync_def app0_def fresh_app_def
        optimizeWebpackLoading_def)
  have h: "host_timer (global_setTimeout app0)"
    by (simp add: host_timer_def app0_def fresh_app_def optimizeWebpackLoading_def)
  have e: "elapsed busy_startup = 3000"
    by (simp add: busy_startup_def)
  have t: "timers (sched app0) = []"
    by (simp add: app0_def fresh_app_def optimizeWebpackLoading_def)
  note main = settingsSync_disabled_then_restored [OF l h]
  from main have a: "live_settingsSync (disableHeavyFeaturesTemporarily app0) = Some False"
    by (rule conjunct1)
  from main have "\<forall>evs. elapsed evs < 5000 \<longrightarrow>
      live_settingsSync (elapse (5000 - elapsed evs)
        (run_events evs (disableHeavyFeaturesTemporarily app0))) = Some True"
    by blast
  then have "elapsed busy_startup < 5000 \<longrightarrow>
      live_settingsSync (elapse (5000 - elapsed busy_startup)
        (run_events busy_startup (disableHeavyFeaturesTemporarily app0))) = Some True"
    by (rule spec)
  with e have b: "live_settingsSync (elapse 2000
        (run_events busy_startup (disableHeavyFeaturesTemporarily app0))) = Some True"
    by simp
  from main t have "\<forall>d < 5000. live_settingsSync (elapse d (disableHeavyFeaturesTemporarily app0)) = Some False"
    by blast
  then have c: "live_settingsSync (elapse 4999 (disableHeavyFeaturesTemporarily app0)) = Some False"
    by simp
  from l h e t a b c show ?thesis by simp
qed

end
